theory Spec2Isabelle
  imports Complex_Main "HOL-Library.Word"
begin

section \<open>Python strings\<close>

text \<open>
  A Python \<open>str\<close> is a sequence of Unicode code points and \<open>len\<close> counts code points,
  so a string is modelled as a list of code points (natural numbers). String literals of
  the source are written with \<open>lit\<close>, which maps an ASCII literal to its code points.
\<close>

type_synonym codepoint = nat
type_synonym pystr = "codepoint list"

definition lit :: "string \<Rightarrow> pystr" where
  "lit s = map of_char s"

abbreviation TAB :: codepoint where "TAB \<equiv> 9"
abbreviation NL :: codepoint where "NL \<equiv> 10"
abbreviation CR :: codepoint where "CR \<equiv> 13"
abbreviation SPACE :: codepoint where "SPACE \<equiv> 32"
abbreviation BANG :: codepoint where "BANG \<equiv> 33"
abbreviation DOT :: codepoint where "DOT \<equiv> 46"
abbreviation LT :: codepoint where "LT \<equiv> 60"
abbreviation GT :: codepoint where "GT \<equiv> 62"
abbreviation QM :: codepoint where "QM \<equiv> 63"

text \<open>
  The whitespace of \<open>str.split()\<close> and \<open>str.strip()\<close> (no arguments): the code points
  for which CPython's \<open>Py_UNICODE_ISSPACE\<close> holds.
\<close>

definition is_space :: "codepoint \<Rightarrow> bool" where
  "is_space c \<longleftrightarrow>
     (9 \<le> c \<and> c \<le> 13) \<or> (28 \<le> c \<and> c \<le> 32) \<or> c = 133 \<or> c = 160 \<or> c = 5760 \<or>
     (8192 \<le> c \<and> c \<le> 8202) \<or> c = 8232 \<or> c = 8233 \<or> c = 8239 \<or> c = 8287 \<or> c = 12288"

definition lstrip :: "pystr \<Rightarrow> pystr" where
  "lstrip s = dropWhile is_space s"

definition rstrip :: "pystr \<Rightarrow> pystr" where
  "rstrip s = rev (dropWhile is_space (rev s))"

text \<open>\<open>s.strip()\<close>\<close>

definition strip :: "pystr \<Rightarrow> pystr" where
  "strip s = rstrip (lstrip s)"

text \<open>\<open>s.startswith(p)\<close>\<close>

definition startswith :: "pystr \<Rightarrow> pystr \<Rightarrow> bool" where
  "startswith s p \<longleftrightarrow> take (length p) s = p"

text \<open>\<open>s.replace(old, new)\<close> for one-character \<open>old\<close> and \<open>new\<close>\<close>

definition replace_ch :: "codepoint \<Rightarrow> codepoint \<Rightarrow> pystr \<Rightarrow> pystr" where
  "replace_ch old new s = map (\<lambda>c. if c = old then new else c) s"

text \<open>\<open>s.split()\<close>: the maximal runs of non-whitespace, in order; never an empty piece.\<close>

function split_ws :: "pystr \<Rightarrow> pystr list" where
  "split_ws s =
     (let s' = dropWhile is_space s
      in if s' = [] then []
         else takeWhile (\<lambda>c. \<not> is_space c) s' # split_ws (dropWhile (\<lambda>c. \<not> is_space c) s'))"
  by pat_completeness auto
termination
proof (relation "measure length")
  show "wf (measure length)" by simp
next
  fix s s' :: pystr
  assume a: "s' = dropWhile is_space s" "s' \<noteq> []"
  have "\<not> is_space (hd s')"
    using a hd_dropWhile by metis
  then have "length (dropWhile (\<lambda>c. \<not> is_space c) s') < length s'"
    using a(2) by (cases s') (auto simp: less_Suc_eq_le length_dropWhile_le)
  moreover have "length s' \<le> length s"
    using a(1) by (simp add: length_dropWhile_le)
  ultimately show "(dropWhile (\<lambda>c. \<not> is_space c) s', s) \<in> measure length"
    by simp
qed

text \<open>\<open>sep.join(parts)\<close>\<close>

fun join :: "pystr \<Rightarrow> pystr list \<Rightarrow> pystr" where
  "join sep [] = []"
| "join sep [p] = p"
| "join sep (p # q # ps) = p @ sep @ join sep (q # ps)"

text \<open>\<open>s.split(sep)\<close> for a one-character separator: empty pieces are kept.\<close>

function split_on :: "codepoint \<Rightarrow> pystr \<Rightarrow> pystr list" where
  "split_on sep s =
     (let piece = takeWhile (\<lambda>c. c \<noteq> sep) s; rest = dropWhile (\<lambda>c. c \<noteq> sep) s
      in if rest = [] then [piece] else piece # split_on sep (tl rest))"
  by pat_completeness auto
termination
proof (relation "measure (\<lambda>(sep, s). length s)")
  show "wf (measure (\<lambda>(sep, s). length s))" by simp
next
  fix sep :: codepoint and s piece rest :: pystr
  assume a: "rest = dropWhile (\<lambda>c. c \<noteq> sep) s" "rest \<noteq> []"
  have "length (tl rest) < length rest"
    using a(2) by (cases rest) auto
  moreover have "length rest \<le> length s"
    using a(1) by (simp add: length_dropWhile_le)
  ultimately show "((sep, tl rest), (sep, s)) \<in> measure (\<lambda>(sep, s). length s)"
    by simp
qed

text \<open>
  \<open>re.sub(r'<[^>]+>', '', s)\<close>: scanning from the left, at a \<open><\<close> the greedy class
  \<open>[^>]+\<close> takes every character up to the next \<open>>\<close>; the match succeeds when that run
  is not empty and a \<open>>\<close> follows it, and is then deleted, the scan resuming after the
  \<open>>\<close>. Otherwise the character is kept and the scan moves on by one.
\<close>

function re_sub_tags :: "pystr \<Rightarrow> pystr" where
  "re_sub_tags [] = []"
| "re_sub_tags (c # cs) =
     (let run = takeWhile (\<lambda>x. x \<noteq> GT) cs; rest = dropWhile (\<lambda>x. x \<noteq> GT) cs
      in if c = LT \<and> run \<noteq> [] \<and> rest \<noteq> [] then re_sub_tags (tl rest)
         else c # re_sub_tags cs)"
  by pat_completeness auto
termination
proof (relation "measure length")
  show "wf (measure length)" by simp
next
  fix c :: codepoint and cs run rest :: pystr
  assume "rest = dropWhile (\<lambda>x. x \<noteq> GT) cs"
  then have "length rest \<le> length cs"
    by (simp add: length_dropWhile_le)
  then have "length (tl rest) \<le> length cs"
    by simp
  then show "(tl rest, c # cs) \<in> measure length"
    by simp
next
  fix c :: codepoint and cs :: pystr
  show "(cs, c # cs) \<in> measure length" by simp
qed

section \<open>The text normalizer and the chunker (tts_service.py)\<close>

text \<open>\<open>TTSService._clean_text\<close>\<close>

definition clean_text :: "pystr \<Rightarrow> pystr" where
  "clean_text text =
     (let text = join [SPACE] (split_ws text);
          text = replace_ch NL SPACE text;
          text = replace_ch CR SPACE text;
          text = replace_ch TAB SPACE text;
          text = re_sub_tags text
      in strip text)"

text \<open>
  The loop of \<open>TTSService._chunk_text\<close> over the sentences; the state is the pair of
  \<open>chunks\<close> and \<open>current_chunk\<close>.
\<close>

fun chunk_loop :: "nat \<Rightarrow> pystr list \<Rightarrow> pystr list \<times> pystr \<Rightarrow> pystr list \<times> pystr" where
  "chunk_loop max_chars [] (chunks, current_chunk) = (chunks, current_chunk)"
| "chunk_loop max_chars (sentence # rest) (chunks, current_chunk) =
     (let sentence = strip sentence
      in if sentence = [] then chunk_loop max_chars rest (chunks, current_chunk)
         else let test_chunk = current_chunk @ sentence @ lit ''. ''
              in if length test_chunk \<le> max_chars
                 then chunk_loop max_chars rest (chunks, test_chunk)
                 else chunk_loop max_chars rest
                        (if current_chunk \<noteq> [] then chunks @ [strip current_chunk] else chunks,
                         sentence @ lit ''. ''))"

text \<open>Line 51: the pieces between sentence terminators, \<open>!\<close> and \<open>?\<close> read as \<open>.\<close>\<close>

definition sentences_of :: "pystr \<Rightarrow> pystr list" where
  "sentences_of text = split_on DOT (replace_ch QM DOT (replace_ch BANG DOT text))"

text \<open>\<open>TTSService._chunk_text\<close>, with \<open>self.max_chars\<close> as a parameter\<close>

definition chunk_text :: "nat \<Rightarrow> pystr \<Rightarrow> pystr list" where
  "chunk_text max_chars text =
     (if length text \<le> max_chars then [text]
      else let sentences = sentences_of text;
               (chunks, current_chunk) = chunk_loop max_chars sentences ([], [])
           in if current_chunk \<noteq> [] then chunks @ [strip current_chunk] else chunks)"

text \<open>
  Predicates used in the loop invariants of the chunker: a finished chunk of the long
  path, and the shape of a non-empty \<open>current_chunk\<close> (sentences each followed by
  a period and a space).
\<close>

definition closed_chunk :: "pystr \<Rightarrow> bool" where
  "closed_chunk c \<longleftrightarrow>
     c \<noteq> [] \<and> strip c = c \<and> last c = DOT \<and> BANG \<notin> set c \<and> QM \<notin> set c"

definition open_chunk :: "pystr \<Rightarrow> bool" where
  "open_chunk cur \<longleftrightarrow>
     (\<exists>b. cur = b @ [DOT, SPACE] \<and> b \<noteq> [] \<and> \<not> is_space (hd b) \<and> BANG \<notin> set b \<and> QM \<notin> set b)"


text \<open>The number of chunks a loop state stands for once the last chunk is added (lines 70-71).\<close>

fun pending_count :: "pystr list \<times> pystr \<Rightarrow> nat" where
  "pending_count (chunks, current_chunk) = length chunks + (if current_chunk \<noteq> [] then 1 else 0)"

section \<open>The remote engine and the synthesis pipeline (tts_service.py)\<close>

text \<open>
  A Python \<open>float\<close>: a finite value (every finite double is a rational), an infinity or
  NaN. The program only passes floats on and compares them with constants.
\<close>

datatype pyfloat = Finite rat | PosInf | NegInf | NaN



type_synonym bytes = "8 word list"

text \<open>\<open>texttospeech.SynthesisInput(ssml=...)\<close> and \<open>texttospeech.SynthesisInput(text=...)\<close>\<close>

datatype synthesis_input = SsmlInput pystr | TextInput pystr



record voice_selection_params =
  vsp_language_code :: pystr
  vsp_name :: pystr

datatype audio_encoding = MP3

record audio_config =
  ac_audio_encoding :: audio_encoding
  ac_speaking_rate :: pyfloat
  ac_pitch :: pyfloat
  ac_effects_profile_id :: "pystr list"
  ac_sample_rate_hertz :: nat

text \<open>The arguments of one \<open>client.synthesize_speech\<close> call\<close>

record synthesize_request =
  req_input :: synthesis_input
  req_voice :: voice_selection_params
  req_audio_config :: audio_config

text \<open>
  The remote engine is an external collaborator: from its state and a request it either
  raises (\<open>Inl\<close>, with the engine's error) or returns the audio bytes, and moves to a new
  state. The service holds the client and \<open>max_chars\<close>.
\<close>

type_synonym ('s, 'e) engine = "'s \<Rightarrow> synthesize_request \<Rightarrow> ('e + bytes) \<times> 's"

record ('s, 'e) tts_service =
  client :: "('s, 'e) engine"
  max_chars :: nat

text \<open>\<open>TTSService.__init__\<close>\<close>

definition TTSService :: "('s, 'e) engine \<Rightarrow> ('s, 'e) tts_service" where
  "TTSService c = \<lparr>client = c, max_chars = 10000\<rparr>"

text \<open>
  What \<open>text_to_speech\<close> raises: its own \<open>ValueError\<close>, or the exception of a failed
  remote call, re-raised unchanged by the \<open>except\<close> clause.
\<close>

datatype 'e exn = ValueError pystr | RemoteEngineError 'e

text \<open>
  The calls made to the engine are recorded, in order, each with the engine's answer:
  this log is what a call-counting mock engine observes.
\<close>

type_synonym 'e call = "synthesize_request \<times> ('e + bytes)"

text \<open>Lines 116-120: the synthesis input built for one chunk\<close>

definition synthesis_input_for :: "bool \<Rightarrow> pystr \<Rightarrow> synthesis_input" where
  "synthesis_input_for is_ssml chunk =
     (if is_ssml \<and> startswith (strip chunk) (lit ''<?xml'') then SsmlInput chunk
      else TextInput chunk)"

text \<open>Lines 116-135: the request built for one chunk\<close>

definition build_request ::
  "pystr \<Rightarrow> pystr \<Rightarrow> pyfloat \<Rightarrow> pyfloat \<Rightarrow> bool \<Rightarrow> pystr \<Rightarrow> synthesize_request" where
  "build_request voice_name language_code speaking_rate pitch is_ssml chunk =
     \<lparr>req_input = synthesis_input_for is_ssml chunk,
      req_voice = \<lparr>vsp_language_code = language_code, vsp_name = voice_name\<rparr>,
      req_audio_config =
        \<lparr>ac_audio_encoding = MP3, ac_speaking_rate = speaking_rate, ac_pitch = pitch,
         ac_effects_profile_id = [lit ''headphone-class-device''],
         ac_sample_rate_hertz = 24000\<rparr>\<rparr>"

text \<open>
  The loop of \<open>text_to_speech\<close> over the chunks (lines 113-148). The state is
  \<open>audio_segments\<close>, the call log and the engine's state; a call that raises ends the
  loop with that exception.
\<close>

fun synthesize_chunks ::
  "('s, 'e) engine \<Rightarrow> (pystr \<Rightarrow> synthesize_request) \<Rightarrow> pystr list \<Rightarrow>
   bytes list \<times> 'e call list \<times> 's \<Rightarrow> ('e exn + bytes list) \<times> 'e call list \<times> 's" where
  "synthesize_chunks eng mk [] (audio_segments, calls, s) = (Inr audio_segments, calls, s)"
| "synthesize_chunks eng mk (chunk # rest) (audio_segments, calls, s) =
     (let request = mk chunk
      in case eng s request of
           (Inl e, s') \<Rightarrow> (Inl (RemoteEngineError e), calls @ [(request, Inl e)], s')
         | (Inr audio_content, s') \<Rightarrow>
             synthesize_chunks eng mk rest
               (audio_segments @ [audio_content], calls @ [(request, Inr audio_content)], s'))"

text \<open>\<open>TTSService.text_to_speech\<close>: the result or the exception, the calls made, the engine's state\<close>

definition text_to_speech ::
  "('s, 'e) tts_service \<Rightarrow> 's \<Rightarrow> pystr \<Rightarrow> pystr \<Rightarrow> pystr \<Rightarrow> pyfloat \<Rightarrow> pyfloat \<Rightarrow> bool \<Rightarrow>
   ('e exn + bytes) \<times> 'e call list \<times> 's" where
  "text_to_speech self s text voice_name language_code speaking_rate pitch is_ssml =
     (if strip text = [] then (Inl (ValueError (lit ''Text cannot be empty'')), [], s)
      else let text = clean_text text;
               chunks = chunk_text (max_chars self) text
           in case synthesize_chunks (client self)
                     (build_request voice_name language_code speaking_rate pitch is_ssml)
                     chunks ([], [], s) of
                (Inl e, calls, s') \<Rightarrow> (Inl e, calls, s')
              | (Inr audio_segments, calls, s') \<Rightarrow> (Inr (concat audio_segments), calls, s'))"

text \<open>The audio segments the engine returned, in call order\<close>

fun segments_of :: "'e call list \<Rightarrow> bytes list" where
  "segments_of [] = []"
| "segments_of ((request, Inr audio_content) # calls) = audio_content # segments_of calls"
| "segments_of ((request, Inl e) # calls) = segments_of calls"

section \<open>The ranges of rate and pitch\<close>



section \<open>Mock engines\<close>

text \<open>
  A call-counting engine that always answers: its state is the number of calls so far,
  and call number \<open>n\<close> returns two bytes of value \<open>n\<close>.
\<close>

definition counting_engine :: "(nat, unit) engine" where
  "counting_engine n request = (Inr [of_nat n, of_nat n], Suc n)"

text \<open>The same engine, except that call number \<open>k\<close> raises.\<close>

definition failing_engine :: "nat \<Rightarrow> (nat, unit) engine" where
  "failing_engine k n request =
     (if n = k then (Inl (), Suc n) else (Inr [of_nat n, of_nat n], Suc n))"

text \<open>A service with a small limit whose engine fails at call \<open>k\<close>, and the request built for a chunk in the examples.\<close>

definition demo_service :: "nat \<Rightarrow> (nat, unit) tts_service" where
  "demo_service k = \<lparr>client = failing_engine k, max_chars = 4\<rparr>"

definition demo_request :: "bool \<Rightarrow> pystr \<Rightarrow> synthesize_request" where
  "demo_request is_ssml =
     build_request (lit ''en-US-Neural2-D'') (lit ''en-US'') (Finite 1) (Finite 0) is_ssml"

text \<open>
  A markup document as the dashboard client sends it with \<open>is_ssml\<close> set: an XML
  declaration (code point 34 is the double quote) and a \<open>speak\<close> element.
\<close>

definition ssml_document :: pystr where
  "ssml_document =
     lit ''<?xml version='' @ [34] @ lit ''1.0'' @ [34] @ lit ''?><speak>Hello</speak>''"

text \<open>A text of \<open>n\<close> letters \<open>a\<close>\<close>

definition letters :: "nat \<Rightarrow> pystr" where
  "letters n = replicate n 97"

section \<open>Evaluation rules for the string functions\<close>

declare split_ws.simps [simp del] split_on.simps [simp del]

lemma split_ws_Nil [simp]: "split_ws [] = []"
  by (subst split_ws.simps) simp

lemma split_ws_Cons [simp]:
  "split_ws (c # cs) =
     (if is_space c then split_ws cs
      else (c # takeWhile (\<lambda>c. \<not> is_space c) cs) # split_ws (dropWhile (\<lambda>c. \<not> is_space c) cs))"
proof (cases "is_space c")
  case True
  have "split_ws (c # cs) = (let s' = dropWhile is_space (c # cs)
      in if s' = [] then []
         else takeWhile (\<lambda>c. \<not> is_space c) s' # split_ws (dropWhile (\<lambda>c. \<not> is_space c) s'))"
    by (rule split_ws.simps)
  also have "\<dots> = (let s' = dropWhile is_space cs
      in if s' = [] then []
         else takeWhile (\<lambda>c. \<not> is_space c) s' # split_ws (dropWhile (\<lambda>c. \<not> is_space c) s'))"
    using True by simp
  also have "\<dots> = split_ws cs"
    by (rule split_ws.simps [symmetric])
  finally show ?thesis using True by simp
next
  case False
  then show ?thesis
    by (subst split_ws.simps) simp
qed

lemma split_on_Nil [simp]: "split_on sep [] = [[]]"
  by (subst split_on.simps) simp

lemma split_on_Cons [simp]:
  "split_on sep (c # cs) =
     (if c = sep then [] # split_on sep cs
      else (c # hd (split_on sep cs)) # tl (split_on sep cs))"
proof (cases "c = sep")
  case True
  then show ?thesis
    by (subst split_on.simps) simp
next
  case False
  have A: "split_on sep cs =
     (let piece = takeWhile (\<lambda>c. c \<noteq> sep) cs; rest = dropWhile (\<lambda>c. c \<noteq> sep) cs
      in if rest = [] then [piece] else piece # split_on sep (tl rest))"
    by (rule split_on.simps)
  have B: "split_on sep (c # cs) =
     (let piece = c # takeWhile (\<lambda>c. c \<noteq> sep) cs; rest = dropWhile (\<lambda>c. c \<noteq> sep) cs
      in if rest = [] then [piece] else piece # split_on sep (tl rest))"
    using False by (subst split_on.simps) simp
  show ?thesis
    using False by (auto simp: A B Let_def)
qed

lemmas eval_defs =
  lit_def is_space_def replace_ch_def strip_def lstrip_def rstrip_def startswith_def
  clean_text_def chunk_text_def sentences_of_def

lemmas run_defs =
  text_to_speech_def eval_defs demo_service_def demo_request_def failing_engine_def
  counting_engine_def TTSService_def

section \<open>The chunker\<close>

lemma chunk_text_short: "length text \<le> m \<Longrightarrow> chunk_text m text = [text]"
  by (simp add: chunk_text_def)

lemma lit_dot_space [simp]: "lit ''. '' = [DOT, SPACE]"
  by (simp add: lit_def)

lemma is_space_consts [simp]:
  "is_space SPACE" "\<not> is_space DOT" "\<not> is_space LT"
  by (simp_all add: is_space_def)

lemma rstrip_decomp: "s = rstrip s @ rev (takeWhile is_space (rev s))"
proof -
  have "rev (takeWhile is_space (rev s) @ dropWhile is_space (rev s)) = s"
    by (simp only: takeWhile_dropWhile_id rev_rev_ident)
  then have "rev (dropWhile is_space (rev s)) @ rev (takeWhile is_space (rev s)) = s"
    by (simp only: rev_append)
  then show ?thesis
    by (simp only: rstrip_def)
qed


lemma set_strip: "set (strip s) \<subseteq> set s"
proof
  fix x assume "x \<in> set (strip s)"
  then have "x \<in> set (dropWhile is_space (rev (dropWhile is_space s)))"
    by (simp add: strip_def rstrip_def lstrip_def)
  then have "x \<in> set (rev (dropWhile is_space s))"
    by (rule set_dropWhileD)
  then have "x \<in> set (dropWhile is_space s)" by simp
  then show "x \<in> set s" by (rule set_dropWhileD)
qed

lemma strip_last: "strip s \<noteq> [] \<Longrightarrow> \<not> is_space (last (strip s))"
proof -
  assume a: "strip s \<noteq> []"
  let ?d = "dropWhile is_space (rev (lstrip s))"
  have d: "?d \<noteq> []" using a by (simp add: strip_def rstrip_def)
  have "last (strip s) = hd ?d"
    using d by (simp add: strip_def rstrip_def last_rev)
  moreover have "\<not> is_space (hd ?d)"
    using d hd_dropWhile by blast
  ultimately show ?thesis by simp
qed

lemma strip_hd: "strip s \<noteq> [] \<Longrightarrow> \<not> is_space (hd (strip s))"
proof -
  assume a: "strip s \<noteq> []"
  have l: "lstrip s \<noteq> []"
    using a by (auto simp: strip_def rstrip_def)
  have "\<not> is_space (hd (lstrip s))"
    using l unfolding lstrip_def using hd_dropWhile by blast
  moreover have "lstrip s = strip s @ rev (takeWhile is_space (rev (lstrip s)))"
    unfolding strip_def by (rule rstrip_decomp)
  then have "hd (lstrip s) = hd (strip s)"
    using a by (metis hd_append2)
  ultimately show ?thesis by simp
qed

lemma strip_fixed:
  assumes "s \<noteq> []" "\<not> is_space (hd s)" "\<not> is_space (last s)"
  shows "strip s = s"
proof -
  have "lstrip s = s"
    using assms(1,2) by (cases s) (simp_all add: lstrip_def)
  moreover have "rstrip s = s"
    using assms(1,3) by (cases s rule: rev_cases) (simp_all add: rstrip_def)
  ultimately show ?thesis by (simp add: strip_def)
qed

lemma strip_dot_space:
  assumes "b \<noteq> []" "\<not> is_space (hd b)"
  shows "strip (b @ [DOT, SPACE]) = b @ [DOT]"
proof -
  have "lstrip (b @ [DOT, SPACE]) = b @ [DOT, SPACE]"
    using assms by (cases b) (simp_all add: lstrip_def)
  moreover have "rstrip (b @ [DOT, SPACE]) = b @ [DOT]"
    by (simp add: rstrip_def)
  ultimately show ?thesis by (simp add: strip_def)
qed

lemma chunk_loop_invariant:
  assumes "I st"
    and "\<And>chunks cur p. I (chunks, cur) \<Longrightarrow> p \<in> set sentences \<Longrightarrow> strip p \<noteq> [] \<Longrightarrow>
           length (cur @ strip p @ [DOT, SPACE]) \<le> m \<Longrightarrow> I (chunks, cur @ strip p @ [DOT, SPACE])"
    and "\<And>chunks cur p. I (chunks, cur) \<Longrightarrow> p \<in> set sentences \<Longrightarrow> strip p \<noteq> [] \<Longrightarrow>
           \<not> length (cur @ strip p @ [DOT, SPACE]) \<le> m \<Longrightarrow>
           I (if cur \<noteq> [] then chunks @ [strip cur] else chunks, strip p @ [DOT, SPACE])"
  shows "I (chunk_loop m sentences st)"
  using assms
proof (induction sentences arbitrary: st)
  case Nil
  then show ?case by (cases st) simp
next
  case (Cons p rest)
  obtain chunks cur where st: "st = (chunks, cur)" by (cases st)
  have rest: "I (chunk_loop m rest st')" if "I st'" for st'
  proof (rule Cons.IH [OF that])
    fix chunks cur q
    assume "I (chunks, cur)" "q \<in> set rest" "strip q \<noteq> []"
      "length (cur @ strip q @ [DOT, SPACE]) \<le> m"
    then show "I (chunks, cur @ strip q @ [DOT, SPACE])"
      using Cons.prems(2) [of chunks cur q] by simp
  next
    fix chunks cur q
    assume "I (chunks, cur)" "q \<in> set rest" "strip q \<noteq> []"
      "\<not> length (cur @ strip q @ [DOT, SPACE]) \<le> m"
    then show "I (if cur \<noteq> [] then chunks @ [strip cur] else chunks, strip q @ [DOT, SPACE])"
      using Cons.prems(3) [of chunks cur q] by simp
  qed
  show ?case
  proof (cases "strip p = []")
    case True
    then show ?thesis using st Cons.prems(1) rest by simp
  next
    case False
    show ?thesis
    proof (cases "length (cur @ strip p @ [DOT, SPACE]) \<le> m")
      case True
      have "I (chunks, cur @ strip p @ [DOT, SPACE])"
        using Cons.prems(1) st False True by (intro Cons.prems(2)) auto
      then show ?thesis using st False True rest by (simp add: Let_def)
    next
      case big: False
      have "I (if cur \<noteq> [] then chunks @ [strip cur] else chunks, strip p @ [DOT, SPACE])"
        using Cons.prems(1) st False big by (intro Cons.prems(3)) auto
      then show ?thesis using st False big rest by (simp add: Let_def)
    qed
  qed
qed


lemma split_on_nonempty [simp]: "split_on sep s \<noteq> []"
  by (induction s) auto

lemma split_on_set: "p \<in> set (split_on sep s) \<Longrightarrow> set p \<subseteq> set s"
proof (induction s arbitrary: p)
  case Nil
  then show ?case by simp
next
  case (Cons c cs)
  show ?case
  proof (cases "c = sep")
    case True
    then show ?thesis using Cons by auto
  next
    case False
    then have "p = c # hd (split_on sep cs) \<or> p \<in> set (tl (split_on sep cs))"
      using Cons.prems by simp
    then show ?thesis
    proof
      assume "p = c # hd (split_on sep cs)"
      moreover have "set (hd (split_on sep cs)) \<subseteq> set cs"
        by (rule Cons.IH) simp
      ultimately show ?thesis by auto
    next
      assume "p \<in> set (tl (split_on sep cs))"
      then have "p \<in> set (split_on sep cs)"
        by (rule list.set_sel(2) [rotated]) simp
      then have "set p \<subseteq> set cs" by (rule Cons.IH)
      then show ?thesis by auto
    qed
  qed
qed

lemma sentences_no_terminators:
  assumes "p \<in> set (sentences_of text)"
  shows "BANG \<notin> set p \<and> QM \<notin> set p"
proof -
  have "set p \<subseteq> set (replace_ch QM DOT (replace_ch BANG DOT text))"
    using assms unfolding sentences_of_def by (rule split_on_set)
  moreover have "BANG \<notin> set (replace_ch QM DOT (replace_ch BANG DOT text))"
    by (auto simp: replace_ch_def)
  moreover have "QM \<notin> set (replace_ch QM DOT (replace_ch BANG DOT text))"
    by (auto simp: replace_ch_def)
  ultimately show ?thesis by blast
qed

lemma closed_of_open:
  assumes "open_chunk cur"
  shows "closed_chunk (strip cur)"
proof -
  obtain b where b: "cur = b @ [DOT, SPACE]" "b \<noteq> []" "\<not> is_space (hd b)"
    "BANG \<notin> set b" "QM \<notin> set b"
    using assms unfolding open_chunk_def by blast
  have s: "strip cur = b @ [DOT]"
    using b(1,2,3) by (simp add: strip_dot_space)
  have "strip (b @ [DOT]) = b @ [DOT]"
    using b(2,3) by (intro strip_fixed) simp_all
  then show ?thesis
    using b(4,5) by (simp add: closed_chunk_def s)
qed

lemma open_extend:
  assumes "cur = [] \<or> open_chunk cur" "strip p \<noteq> []" "BANG \<notin> set p" "QM \<notin> set p"
  shows "open_chunk (cur @ strip p @ [DOT, SPACE])"
proof -
  have p: "\<not> is_space (hd (strip p))" "BANG \<notin> set (strip p)" "QM \<notin> set (strip p)"
    using assms(2,3,4) strip_hd set_strip by blast+
  from assms(1) show ?thesis
  proof
    assume "cur = []"
    then show ?thesis
      unfolding open_chunk_def using p assms(2) by (intro exI [of _ "strip p"]) simp
  next
    assume "open_chunk cur"
    then obtain b where b: "cur = b @ [DOT, SPACE]" "b \<noteq> []" "\<not> is_space (hd b)"
      "BANG \<notin> set b" "QM \<notin> set b"
      unfolding open_chunk_def by blast
    show ?thesis
      unfolding open_chunk_def using p b
      by (intro exI [of _ "b @ [DOT, SPACE] @ strip p"]) simp
  qed
qed

lemma chunk_loop_closed:
  assumes sent: "\<forall>p \<in> set sentences. BANG \<notin> set p \<and> QM \<notin> set p"
    and init: "\<forall>c \<in> set chunks. closed_chunk c" "cur = [] \<or> open_chunk cur"
    and res: "chunk_loop m sentences (chunks, cur) = (chunks', cur')"
  shows "(\<forall>c \<in> set chunks'. closed_chunk c) \<and> (cur' = [] \<or> open_chunk cur')"
proof -
  let ?I = "\<lambda>st. (\<forall>c \<in> set (fst st). closed_chunk c) \<and> (snd st = [] \<or> open_chunk (snd st))"
  have "?I (chunk_loop m sentences (chunks, cur))"
  proof (rule chunk_loop_invariant [where I = ?I])
    show "?I (chunks, cur)" using init by simp
  next
    fix chunks cur p
    assume "?I (chunks, cur)" "p \<in> set sentences" "strip p \<noteq> []"
    then show "?I (chunks, cur @ strip p @ [DOT, SPACE])"
      using sent open_extend [of cur p] by auto
  next
    fix chunks cur p
    assume a: "?I (chunks, cur)" "p \<in> set sentences" "strip p \<noteq> []"
    have "open_chunk ([] @ strip p @ [DOT, SPACE])"
      using a(2,3) sent by (intro open_extend) auto
    moreover have "cur \<noteq> [] \<Longrightarrow> closed_chunk (strip cur)"
      using a(1) closed_of_open by auto
    ultimately show "?I (if cur \<noteq> [] then chunks @ [strip cur] else chunks, strip p @ [DOT, SPACE])"
      using a(1) by auto
  qed
  then show ?thesis using res by simp
qed


lemma chunk_text_long:
  assumes "m < length text" "chunk_loop m (sentences_of text) ([], []) = (chunks, cur)"
  shows "chunk_text m text = (if cur \<noteq> [] then chunks @ [strip cur] else chunks)"
  using assms by (simp add: chunk_text_def)


section \<open>The chunk count\<close>

lemma split_on_append:
  "split_on sep (xs @ ys) =
     butlast (split_on sep xs) @ [last (split_on sep xs) @ hd (split_on sep ys)] @ tl (split_on sep ys)"
proof (induction xs)
  case Nil
  then show ?case by simp
next
  case (Cons c cs)
  show ?case
  proof (cases "c = sep")
    case True
    then show ?thesis using Cons by simp
  next
    case False
    show ?thesis
    proof (cases "split_on sep cs")
      case Nil
      then show ?thesis by simp
    next
      case (Cons p ps)
      then show ?thesis
        using False Cons.IH by (cases ps) simp_all
    qed
  qed
qed

lemma chunk_loop_append:
  "chunk_loop m (xs @ ys) st = chunk_loop m ys (chunk_loop m xs st)"
proof (induction xs arbitrary: st)
  case Nil
  then show ?case by (cases st) simp
next
  case (Cons x xs)
  then show ?case by (cases st) (simp add: Let_def)
qed

lemma chunk_loop_single:
  "chunk_loop m [p] (chunks, cur) =
     (if strip p = [] then (chunks, cur)
      else if length cur + length (strip p) + 2 \<le> m then (chunks, cur @ strip p @ [DOT, SPACE])
      else (if cur \<noteq> [] then chunks @ [strip cur] else chunks, strip p @ [DOT, SPACE]))"
  by (simp add: Let_def)

lemma pending_count_single:
  "pending_count (chunk_loop m [p] (chunks, cur)) =
     (if strip p = [] then pending_count (chunks, cur)
      else if length cur + length (strip p) + 2 \<le> m then length chunks + 1
      else pending_count (chunks, cur) + 1)"
  by (simp add: chunk_loop_single)

lemma pending_count_step: "pending_count st \<le> pending_count (chunk_loop m [p] st)"
proof -
  obtain chunks cur where st: "st = (chunks, cur)" by (cases st)
  show ?thesis
    unfolding st pending_count_single by simp
qed

lemma pending_count_loop: "pending_count st \<le> pending_count (chunk_loop m xs st)"
proof (induction xs arbitrary: st)
  case Nil
  then show ?case by (cases st) simp
next
  case (Cons x xs)
  have "pending_count st \<le> pending_count (chunk_loop m [x] st)"
    by (rule pending_count_step)
  also have "\<dots> \<le> pending_count (chunk_loop m xs (chunk_loop m [x] st))"
    by (rule Cons.IH)
  also have "chunk_loop m xs (chunk_loop m [x] st) = chunk_loop m (x # xs) st"
    using chunk_loop_append [of m "[x]" xs st] by simp
  finally show ?case .
qed

lemma lstrip_append:
  assumes "lstrip p \<noteq> []"
  shows "lstrip (p @ q) = lstrip p @ q"
proof -
  have "\<exists>x \<in> set p. \<not> is_space x"
    using assms unfolding lstrip_def by (simp add: dropWhile_eq_Nil_conv)
  then show ?thesis
    unfolding lstrip_def by (auto simp: dropWhile_append1)
qed

lemma length_rstrip_append: "length (rstrip p) \<le> length (rstrip (p @ q))"
proof (cases "\<forall>x \<in> set q. is_space x")
  case True
  then have "dropWhile is_space (rev q @ rev p) = dropWhile is_space (rev p)"
    by (intro dropWhile_append2) simp
  then show ?thesis by (simp add: rstrip_def)
next
  case False
  then obtain x where "x \<in> set (rev q)" "\<not> is_space x" by auto
  then have "dropWhile is_space (rev q @ rev p) = dropWhile is_space (rev q) @ rev p"
    by (rule dropWhile_append1)
  then have "length (rstrip (p @ q)) \<ge> length p"
    by (simp add: rstrip_def)
  moreover have "length (rstrip p) \<le> length p"
    using length_dropWhile_le [of is_space "rev p"] by (simp add: rstrip_def)
  ultimately show ?thesis by simp
qed

lemma length_strip_append: "length (strip p) \<le> length (strip (p @ q))"
proof (cases "lstrip p = []")
  case True
  then show ?thesis by (simp add: strip_def rstrip_def)
next
  case False
  then show ?thesis
    by (simp add: strip_def lstrip_append length_rstrip_append)
qed

lemma pending_count_grow:
  "pending_count (chunk_loop m [p] st) \<le> pending_count (chunk_loop m [p @ q] st)"
proof -
  obtain chunks cur where st: "st = (chunks, cur)" by (cases st)
  have len: "length (strip p) \<le> length (strip (p @ q))"
    by (rule length_strip_append)
  show ?thesis
  proof (cases "strip p = []")
    case True
    then have "pending_count (chunk_loop m [p] st) = pending_count st"
      unfolding st pending_count_single by simp
    then show ?thesis by (simp add: pending_count_step)
  next
    case False
    then have "strip (p @ q) \<noteq> []"
      using len by auto
    then show ?thesis
      using False len unfolding st pending_count_single by auto
  qed
qed

lemma length_chunk_text_long:
  assumes "m < length text"
  shows "length (chunk_text m text) = pending_count (chunk_loop m (sentences_of text) ([], []))"
  using assms by (simp add: chunk_text_def split: prod.splits)

lemma sentences_of_append:
  "sentences_of (s @ u) =
     butlast (sentences_of s) @ [last (sentences_of s) @ hd (sentences_of u)] @ tl (sentences_of u)"
  by (simp add: sentences_of_def replace_ch_def split_on_append)

lemma chunk_count_extension:
  assumes "m < length s"
  shows "length (chunk_text m s) \<le> length (chunk_text m (s @ u))"
proof -
  let ?init = "butlast (sentences_of s)"
  let ?p = "last (sentences_of s)"
  let ?q = "hd (sentences_of u)"
  let ?st = "chunk_loop m ?init ([], [])"
  have "sentences_of s = ?init @ [?p]"
    by (simp add: sentences_of_def)
  then have "chunk_loop m (sentences_of s) ([], []) = chunk_loop m [?p] ?st"
    by (metis chunk_loop_append)
  then have "length (chunk_text m s) = pending_count (chunk_loop m [?p] ?st)"
    using assms by (simp add: length_chunk_text_long)
  also have "\<dots> \<le> pending_count (chunk_loop m [?p @ ?q] ?st)"
    by (rule pending_count_grow)
  also have "\<dots> \<le> pending_count (chunk_loop m (tl (sentences_of u)) (chunk_loop m [?p @ ?q] ?st))"
    by (rule pending_count_loop)
  also have "chunk_loop m (tl (sentences_of u)) (chunk_loop m [?p @ ?q] ?st)
               = chunk_loop m (sentences_of (s @ u)) ([], [])"
    by (simp only: sentences_of_append [of s u] chunk_loop_append)
  also have "pending_count (chunk_loop m (sentences_of (s @ u)) ([], [])) = length (chunk_text m (s @ u))"
    using assms by (simp add: length_chunk_text_long)
  finally show ?thesis .
qed

lemma split_on_no_sep: "sep \<notin> set xs \<Longrightarrow> split_on sep xs = [xs]"
  by (induction xs) auto

lemma split_on_at_sep: "sep \<notin> set xs \<Longrightarrow> split_on sep (xs @ sep # ys) = xs # split_on sep ys"
  by (induction xs) auto

lemma strip_letters: "strip (letters n) = letters n"
proof (cases n)
  case 0
  then show ?thesis by (simp add: letters_def strip_def lstrip_def rstrip_def)
next
  case (Suc k)
  have "letters n \<noteq> []" "hd (letters n) = 97" "last (letters n) = 97"
    using Suc by (simp_all add: letters_def)
  then show ?thesis
    by (intro strip_fixed) (simp_all add: is_space_def)
qed

lemma sentences_of_letters:
  "sentences_of (letters n) = [letters n]"
  "sentences_of (letters n @ DOT # letters k) = [letters n, letters k]"
  by (simp_all add: sentences_of_def replace_ch_def letters_def split_on_no_sep split_on_at_sep)

lemma chunk_count_letters:
  "length (letters 5001 @ DOT # letters 5001) = 10003"
  "length (letters 10004) = 10004"
  "length (chunk_text 10000 (letters 5001 @ DOT # letters 5001)) = 2"
  "length (chunk_text 10000 (letters 10004)) = 1"
proof -
  have n: "letters 5001 \<noteq> []" "letters 10004 \<noteq> []" "length (letters 5001) = 5001"
    "length (letters 10004) = 10004"
    by (simp_all add: letters_def)
  show "length (letters 5001 @ DOT # letters 5001) = 10003" "length (letters 10004) = 10004"
    using n by simp_all
  show "length (chunk_text 10000 (letters 5001 @ DOT # letters 5001)) = 2"
    using n by (simp add: chunk_text_def sentences_of_letters strip_letters Let_def)
  show "length (chunk_text 10000 (letters 10004)) = 1"
    using n by (simp add: chunk_text_def sentences_of_letters strip_letters Let_def)
qed

section \<open>The synthesis loop\<close>

lemma segments_of_append [simp]: "segments_of (xs @ ys) = segments_of xs @ segments_of ys"
  by (induction xs rule: segments_of.induct) simp_all

text \<open>What one run of the loop adds to the call log.\<close>

lemma synthesize_chunks_log:
  assumes "synthesize_chunks eng mk chunks (segs, calls, s) = (res, calls', s')"
  shows "\<exists>new. calls' = calls @ new \<and> map fst new = take (length new) (map mk chunks) \<and>
           (case res of
              Inr segs' \<Rightarrow> length new = length chunks \<and> segs' = segs @ segments_of new \<and>
                           map snd new = map Inr (segments_of new)
            | Inl x \<Rightarrow> new \<noteq> [] \<and> map snd (butlast new) = map Inr (segments_of (butlast new)) \<and>
                       (\<exists>e. x = RemoteEngineError e \<and> snd (last new) = Inl e))"
  using assms
proof (induction chunks arbitrary: segs calls s)
  case Nil
  then show ?case by auto
next
  case (Cons chunk rest)
  obtain r s1 where step: "eng s (mk chunk) = (r, s1)"
    by (cases "eng s (mk chunk)")
  show ?case
  proof (cases r)
    case (Inl e)
    then have "res = Inl (RemoteEngineError e)" "calls' = calls @ [(mk chunk, Inl e)]"
      using Cons.prems step by simp_all
    then show ?thesis
      by (intro exI [of _ "[(mk chunk, Inl e)]"]) simp
  next
    case (Inr audio)
    then have "synthesize_chunks eng mk rest
                 (segs @ [audio], calls @ [(mk chunk, Inr audio)], s1) = (res, calls', s')"
      using Cons.prems step by simp
    from Cons.IH [OF this] obtain new where new:
      "calls' = (calls @ [(mk chunk, Inr audio)]) @ new"
      "map fst new = take (length new) (map mk rest)"
      "case res of
         Inr segs' \<Rightarrow> length new = length rest \<and> segs' = (segs @ [audio]) @ segments_of new \<and>
                      map snd new = map Inr (segments_of new)
       | Inl x \<Rightarrow> new \<noteq> [] \<and> map snd (butlast new) = map Inr (segments_of (butlast new)) \<and>
                  (\<exists>e. x = RemoteEngineError e \<and> snd (last new) = Inl e)"
      by blast
    show ?thesis
      using new by (intro exI [of _ "(mk chunk, Inr audio) # new"]) (auto split: sum.splits)
  qed
qed

text \<open>The same for \<open>text_to_speech\<close>, whose log starts empty.\<close>

lemma text_to_speech_log:
  assumes run: "text_to_speech self s text voice_name language_code speaking_rate pitch is_ssml
                  = (res, calls, s')"
    and nonempty: "strip text \<noteq> []"
  shows "map fst calls =
           take (length calls)
             (map (build_request voice_name language_code speaking_rate pitch is_ssml)
                (chunk_text (max_chars self) (clean_text text))) \<and>
         (case res of
            Inr audio \<Rightarrow> length calls = length (chunk_text (max_chars self) (clean_text text)) \<and>
                         audio = concat (segments_of calls) \<and>
                         map snd calls = map Inr (segments_of calls)
          | Inl x \<Rightarrow> calls \<noteq> [] \<and> map snd (butlast calls) = map Inr (segments_of (butlast calls)) \<and>
                     (\<exists>e. x = RemoteEngineError e \<and> snd (last calls) = Inl e))"
proof -
  let ?mk = "build_request voice_name language_code speaking_rate pitch is_ssml"
  let ?chunks = "chunk_text (max_chars self) (clean_text text)"
  obtain r cs st where loop: "synthesize_chunks (client self) ?mk ?chunks ([], [], s) = (r, cs, st)"
    by (cases "synthesize_chunks (client self) ?mk ?chunks ([], [], s)")
  from synthesize_chunks_log [OF loop] obtain new where new:
    "cs = [] @ new" "map fst new = take (length new) (map ?mk ?chunks)"
    "case r of
       Inr segs' \<Rightarrow> length new = length ?chunks \<and> segs' = [] @ segments_of new \<and>
                    map snd new = map Inr (segments_of new)
     | Inl x \<Rightarrow> new \<noteq> [] \<and> map snd (butlast new) = map Inr (segments_of (butlast new)) \<and>
                (\<exists>e. x = RemoteEngineError e \<and> snd (last new) = Inl e)"
    by blast
  have "calls = cs" "res = (case r of Inl e \<Rightarrow> Inl e | Inr segs \<Rightarrow> Inr (concat segs))"
    using run nonempty loop by (auto simp: text_to_speech_def Let_def split: sum.splits)
  then show ?thesis
    using new by (auto split: sum.splits)
qed



lemma Inl_not_in_Inr_map:
  assumes "map snd xs = map Inr ys" "(request, Inl e) \<in> set xs"
  shows False
proof -
  have "Inl e \<in> set (map snd xs)"
    using assms(2) by force
  then show False
    unfolding assms(1) by auto
qed

lemma demo_failing_run:
  "text_to_speech (demo_service 1) 0 (lit ''ab.cd.ef'') (lit ''en-US-Neural2-D'') (lit ''en-US'')
     (Finite 1) (Finite 0) False =
   (Inl (RemoteEngineError ()),
    [(demo_request False (lit ''ab.''), Inr [0, 0]), (demo_request False (lit ''cd.''), Inl ())], 2)"
  by (simp add: run_defs)

lemma demo_good_run:
  "text_to_speech (demo_service 9) 0 (lit ''ab.cd.ef'') (lit ''en-US-Neural2-D'') (lit ''en-US'')
     (Finite 1) (Finite 0) False =
   (Inr [0, 0, 1, 1, 2, 2],
    [(demo_request False (lit ''ab.''), Inr [0, 0]), (demo_request False (lit ''cd.''), Inr [1, 1]),
     (demo_request False (lit ''ef.''), Inr [2, 2])], 3)"
  by (simp add: run_defs)







section \<open>Claims about the chunker\<close>

text \<open>
  C6. A text no longer than the limit is returned as exactly one chunk, the text
  itself: nothing is split, rewritten or stripped on this path.
\<close>

theorem short_text_is_one_chunk:
  "length text \<le> limit \<Longrightarrow> chunk_text limit text = [text]"
  by (rule chunk_text_short)

theorem short_text_is_one_chunk_witness:
  "length (lit ''Hi! You? '') \<le> 10000 \<and> chunk_text 10000 (lit ''Hi! You? '') = [lit ''Hi! You? '']"
  using short_text_is_one_chunk [of "lit ''Hi! You? ''" 10000] by (simp add: lit_def)

text \<open>
  C10. For a text longer than the limit, every chunk is non-empty, has no leading or
  trailing whitespace (stripping changes nothing), ends with a period and contains
  neither \<open>!\<close> nor \<open>?\<close>.
\<close>

theorem long_path_chunks_are_closed:
  assumes "m < length text"
  shows "\<forall>c \<in> set (chunk_text m text).
           c \<noteq> [] \<and> strip c = c \<and> \<not> is_space (hd c) \<and> \<not> is_space (last c) \<and>
           last c = DOT \<and> BANG \<notin> set c \<and> QM \<notin> set c"
proof -
  obtain chunks cur where loop: "chunk_loop m (sentences_of text) ([], []) = (chunks, cur)"
    by (cases "chunk_loop m (sentences_of text) ([], [])")
  have inv: "(\<forall>c \<in> set chunks. closed_chunk c) \<and> (cur = [] \<or> open_chunk cur)"
    by (rule chunk_loop_closed [OF _ _ _ loop]) (simp_all add: sentences_no_terminators)
  have all: "\<forall>c \<in> set (chunk_text m text). closed_chunk c"
    using inv closed_of_open by (auto simp: chunk_text_long [OF assms loop])
  show ?thesis
  proof
    fix c assume "c \<in> set (chunk_text m text)"
    then have c: "c \<noteq> []" "strip c = c" "last c = DOT" "BANG \<notin> set c" "QM \<notin> set c"
      using all by (auto simp: closed_chunk_def)
    have "\<not> is_space (hd c)"
      using strip_hd [of c] c(1,2) by simp
    then show "c \<noteq> [] \<and> strip c = c \<and> \<not> is_space (hd c) \<and> \<not> is_space (last c) \<and>
           last c = DOT \<and> BANG \<notin> set c \<and> QM \<notin> set c"
      using c by simp
  qed
qed

theorem long_path_chunks_are_closed_witness:
  "4 < length (lit ''ab! cd?'') \<and>
   chunk_text 4 (lit ''ab! cd?'') = [lit ''ab.'', lit ''cd.''] \<and>
   strip (lit ''ab.'') = lit ''ab.'' \<and> last (lit ''cd.'') = DOT \<and>
   BANG \<notin> set (lit ''ab.'') \<and> QM \<notin> set (lit ''cd.'')"
  using long_path_chunks_are_closed [of 4 "lit ''ab! cd?''"] by (simp add: eval_defs)




text \<open>
  C8, as amended. For a fixed limit, a text no longer than the limit gives exactly one
  chunk, and for a text longer than the limit the number of chunks does not decrease
  when more text is appended to it.
\<close>

theorem chunk_count_monotone_under_extension:
  "(length s \<le> limit \<longrightarrow> length (chunk_text limit s) = 1) \<and>
   (limit < length s \<longrightarrow> length (chunk_text limit s) \<le> length (chunk_text limit (s @ u)))"
  by (simp add: chunk_text_short chunk_count_extension)

theorem chunk_count_monotone_under_extension_witness:
  "length (lit ''ab'') \<le> 4 \<and> length (chunk_text 4 (lit ''ab'')) = 1 \<and>
   4 < length (lit ''ab.cd'') \<and> length (chunk_text 4 (lit ''ab.cd'')) = 2 \<and>
   length (chunk_text 4 (lit ''ab.cd'' @ lit ''e. f'')) = 3"
  using chunk_count_monotone_under_extension [of "lit ''ab''" 4]
    chunk_count_monotone_under_extension [of "lit ''ab.cd''" 4 "lit ''e. f''"]
  by (simp add: eval_defs)

text \<open>
  C8, as stated, fails: a longer text with fewer sentence breaks gives fewer chunks,
  at a small limit and at the service's limit of 10000 alike.
\<close>

theorem chunk_count_not_monotone_in_length:
  "length (lit ''ab.cd'') \<le> length (lit ''abcdef'') \<and>
   length (chunk_text 4 (lit ''ab.cd'')) = 2 \<and> length (chunk_text 4 (lit ''abcdef'')) = 1 \<and>
   length (letters 5001 @ DOT # letters 5001) \<le> length (letters 10004) \<and>
   length (chunk_text 10000 (letters 5001 @ DOT # letters 5001)) = 2 \<and>
   length (chunk_text 10000 (letters 10004)) = 1"
proof -
  have small: "length (lit ''ab.cd'') \<le> length (lit ''abcdef'') \<and>
    length (chunk_text 4 (lit ''ab.cd'')) = 2 \<and> length (chunk_text 4 (lit ''abcdef'')) = 1"
    by (simp add: eval_defs)
  have large: "length (letters 5001 @ DOT # letters 5001) \<le> length (letters 10004) \<and>
    length (chunk_text 10000 (letters 5001 @ DOT # letters 5001)) = 2 \<and>
    length (chunk_text 10000 (letters 10004)) = 1"
    by (simp only: chunk_count_letters) simp
  show ?thesis
    using small large by (intro conjI) (elim conjE, assumption)+
qed

section \<open>Claims about the pipeline\<close>

text \<open>
  C2. If a remote synthesis call fails, \<open>text_to_speech\<close> raises the engine's error and
  returns no audio; the failed call is the last call made, every call before it had
  succeeded (those segments are dropped with the exception), and the requests sent are
  the requests of the first chunks, one per chunk and in order: nothing is sent twice.
\<close>

theorem remote_failure_aborts_request:
  assumes run: "text_to_speech self s text voice_name language_code speaking_rate pitch is_ssml
                  = (res, calls, s')"
    and failed: "(request, Inl e) \<in> set calls"
  shows "res = Inl (RemoteEngineError e) \<and>
         last calls = (request, Inl e) \<and>
         map snd (butlast calls) = map Inr (segments_of (butlast calls)) \<and>
         length calls \<le> length (chunk_text (max_chars self) (clean_text text)) \<and>
         map fst calls =
           take (length calls)
             (map (build_request voice_name language_code speaking_rate pitch is_ssml)
                (chunk_text (max_chars self) (clean_text text)))"
proof -
  let ?mk = "build_request voice_name language_code speaking_rate pitch is_ssml"
  let ?chunks = "chunk_text (max_chars self) (clean_text text)"
  have nonempty: "strip text \<noteq> []"
    using run failed by (auto simp: text_to_speech_def split: if_splits)
  note log = text_to_speech_log [OF run nonempty]
  have prefix: "map fst calls = take (length calls) (map ?mk ?chunks)"
    using log by simp
  have "length (map fst calls) = length (take (length calls) (map ?mk ?chunks))"
    by (simp only: prefix [symmetric])
  then have len: "length calls \<le> length ?chunks"
    by simp
  show ?thesis
  proof (cases res)
    case (Inr audio)
    then have "map snd calls = map Inr (segments_of calls)"
      using log by simp
    then have False
      using failed by (rule Inl_not_in_Inr_map)
    then show ?thesis ..
  next
    case (Inl x)
    then obtain e' where x: "calls \<noteq> []"
      "map snd (butlast calls) = map Inr (segments_of (butlast calls))"
      "x = RemoteEngineError e'" "snd (last calls) = Inl e'"
      using log by auto
    have "(request, Inl e) \<in> set (butlast calls @ [last calls])"
      using failed x(1) by simp
    then have "(request, Inl e) \<in> set (butlast calls) \<or> (request, Inl e) = last calls"
      by auto
    then have lst: "last calls = (request, Inl e)"
      using Inl_not_in_Inr_map [OF x(2)] by auto
    then have "e' = e"
      using x(4) by simp
    then show ?thesis
      using Inl x(2,3) lst len prefix by simp
  qed
qed

theorem remote_failure_aborts_request_witness:
  "text_to_speech (demo_service 1) 0 (lit ''ab.cd.ef'') (lit ''en-US-Neural2-D'') (lit ''en-US'')
     (Finite 1) (Finite 0) False =
   (Inl (RemoteEngineError ()),
    [(demo_request False (lit ''ab.''), Inr [0, 0]), (demo_request False (lit ''cd.''), Inl ())], 2) \<and>
   chunk_text (max_chars (demo_service 1)) (clean_text (lit ''ab.cd.ef'')) =
     [lit ''ab.'', lit ''cd.'', lit ''ef.''] \<and>
   (demo_request False (lit ''cd.''), Inl ()) \<in>
     set [(demo_request False (lit ''ab.''), Inr [0, 0]), (demo_request False (lit ''cd.''), Inl ())] \<and>
   last [(demo_request False (lit ''ab.''), Inr [0, 0]), (demo_request False (lit ''cd.''), Inl ())] =
     (demo_request False (lit ''cd.''), Inl ())"
  using remote_failure_aborts_request [OF demo_failing_run, of "demo_request False (lit ''cd.'')" "()"]
    demo_failing_run
  by (simp add: eval_defs demo_service_def)


text \<open>
  C4. When the request succeeds there is one audio segment per chunk, the calls are the
  chunks' requests in chunk order, and the result is the concatenation of the segments
  in that order, so its length is the sum of the segments' lengths.
\<close>

theorem success_is_ordered_concatenation:
  assumes run: "text_to_speech self s text voice_name language_code speaking_rate pitch is_ssml
                  = (Inr audio, calls, s')"
  shows "length (segments_of calls) = length (chunk_text (max_chars self) (clean_text text)) \<and>
         map fst calls =
           map (build_request voice_name language_code speaking_rate pitch is_ssml)
             (chunk_text (max_chars self) (clean_text text)) \<and>
         map snd calls = map Inr (segments_of calls) \<and>
         audio = concat (segments_of calls) \<and>
         length audio = sum_list (map length (segments_of calls))"
proof -
  let ?mk = "build_request voice_name language_code speaking_rate pitch is_ssml"
  let ?chunks = "chunk_text (max_chars self) (clean_text text)"
  have nonempty: "strip text \<noteq> []"
    using run by (auto simp: text_to_speech_def split: if_splits)
  note log = text_to_speech_log [OF run nonempty]
  have n: "length calls = length ?chunks"
    and answers: "map snd calls = map Inr (segments_of calls)"
    and audio: "audio = concat (segments_of calls)"
    using log by simp_all
  have segs: "length (segments_of calls) = length ?chunks"
    using arg_cong [OF answers, of length] n by simp
  have "map fst calls = take (length calls) (map ?mk ?chunks)"
    using log by simp
  then have reqs: "map fst calls = map ?mk ?chunks"
    using n by simp
  show ?thesis
    using segs reqs answers audio by (simp add: length_concat)
qed

theorem success_is_ordered_concatenation_witness:
  "text_to_speech (demo_service 9) 0 (lit ''ab.cd.ef'') (lit ''en-US-Neural2-D'') (lit ''en-US'')
     (Finite 1) (Finite 0) False =
   (Inr [0, 0, 1, 1, 2, 2],
    [(demo_request False (lit ''ab.''), Inr [0, 0]), (demo_request False (lit ''cd.''), Inr [1, 1]),
     (demo_request False (lit ''ef.''), Inr [2, 2])], 3) \<and>
   chunk_text (max_chars (demo_service 9)) (clean_text (lit ''ab.cd.ef'')) =
     [lit ''ab.'', lit ''cd.'', lit ''ef.''] \<and>
   segments_of
    [(demo_request False (lit ''ab.''), Inr [0, 0]), (demo_request False (lit ''cd.''), Inr [1, 1]),
     (demo_request False (lit ''ef.''), Inr [2, 2 :: 8 word]) :: unit call] = [[0, 0], [1, 1], [2, 2]] \<and>
   length [0, 0, 1, 1, 2, 2 :: 8 word] = sum_list (map length [[0, 0], [1, 1], [2, 2 :: 8 word]])"
  using success_is_ordered_concatenation [OF demo_good_run] demo_good_run
  by (simp add: eval_defs demo_service_def)




text \<open>
  C3. The code at an input made of tags only: the text is not blank, so the guard of
  line 100 lets it pass; \<open>_clean_text\<close> then empties it, the chunker returns the one
  empty chunk, and the engine is called once with an empty plain text. No \<open>ValueError\<close>
  is raised, although the guard is there to keep empty text from the engine.
\<close>

theorem tag_only_text_reaches_engine:
  "strip (lit ''<b></b>'') \<noteq> [] \<and> clean_text (lit ''<b></b>'') = [] \<and>
   text_to_speech (TTSService counting_engine) 0 (lit ''<b></b>'') (lit ''en-US-Neural2-D'')
     (lit ''en-US'') (Finite 1) (Finite 0) False
     = (Inr [0, 0], [(demo_request False [], Inr [0, 0])], 1) \<and>
   req_input (demo_request False []) = TextInput []"
  by (simp add: run_defs build_request_def synthesis_input_for_def)

text \<open>
  C1. The code at a markup-flagged input: \<open>_clean_text\<close> is applied whatever the flag,
  so the tags of the document are removed before chunking, and the engine receives the
  remaining words as plain text.
\<close>

theorem markup_flagged_input_is_stripped:
  "startswith (strip ssml_document) (lit ''<?xml'') \<and>
   clean_text ssml_document = lit ''Hello'' \<and>
   chunk_text 10000 (clean_text ssml_document) = [lit ''Hello''] \<and>
   text_to_speech (TTSService counting_engine) 0 ssml_document (lit ''en-US-Neural2-D'')
     (lit ''en-US'') (Finite 1) (Finite 0) True
     = (Inr [0, 0], [(demo_request True (lit ''Hello''), Inr [0, 0])], 1) \<and>
   req_input (demo_request True (lit ''Hello'')) = TextInput (lit ''Hello'')"
  by (simp add: run_defs ssml_document_def build_request_def synthesis_input_for_def)




end
